theory Spec2Isabelle
  imports Complex_Main "HOL-Library.AList" "HOL-Library.Char_ord" "HOL-Library.List_Lexorder"
begin

section \<open>RoadWatch: the snapshot/diff engine of \<^verbatim>\<open>roadwatch/watch.py\<close>\<close>

text \<open>
  The development follows \<^verbatim>\<open>src/roadwatch/watch.py\<close>. A \<^verbatim>\<open>Path\<close> is
  identified with its string form. Python dictionaries keep insertion order and are
  association lists here; \<^verbatim>\<open>d[k] = v\<close> is \<open>AList.update\<close>. Floats that come from
  \<^verbatim>\<open>os.stat\<close> are finite and compare like rationals. The \<^verbatim>\<open>timestamp\<close> field of
  an event (the wall clock at construction) is left out.
\<close>

subsection \<open>Data model\<close>

type_synonym path = string

datatype EventType = CREATED | MODIFIED | DELETED | MOVED

record FileEvent =
  e_type :: EventType
  e_path :: path
  e_old_path :: "path option"
  e_is_directory :: bool

text \<open>\<^verbatim>\<open>FileEvent(type=t, path=p)\<close>: the remaining fields take their defaults.\<close>

definition mk_event :: "EventType \<Rightarrow> path \<Rightarrow> FileEvent" where
  "mk_event t p = \<lparr>e_type = t, e_path = p, e_old_path = None, e_is_directory = False\<rparr>"

record FileSnapshot =
  s_path :: path
  s_size :: int
  s_mtime :: rat
  s_hash :: string
  s_exists :: bool

subsection \<open>The library and the file system as the code sees them\<close>

text \<open>
  \<^verbatim>\<open>Path.match\<close>, \<^verbatim>\<open>hashlib.md5(...).hexdigest()\<close> and the iteration order of a
  Python \<^verbatim>\<open>set\<close> belong to the runtime, not to this module. They are fields of a
  record that every operation receives.
\<close>

record runtime =
  path_match :: "path \<Rightarrow> string \<Rightarrow> bool"
  md5_hexdigest :: "string \<Rightarrow> string"
  iter_set :: "path set \<Rightarrow> path list"

text \<open>
  Iterating over a set visits every element exactly once, in an order the language does
  not fix.
\<close>

definition iteration :: "(path set \<Rightarrow> path list) \<Rightarrow> bool" where
  "iteration it \<longleftrightarrow> (\<forall>S. finite S \<longrightarrow> set (it S) = S \<and> distinct (it S))"

text \<open>One state of the file system, as observed by the calls a scan makes.\<close>

record filesystem =
  fs_exists :: "path \<Rightarrow> bool"
  fs_is_file :: "path \<Rightarrow> bool"
  fs_glob :: "path \<Rightarrow> string \<Rightarrow> path list"
  fs_size :: "path \<Rightarrow> int"
  fs_mtime :: "path \<Rightarrow> rat"
  fs_read :: "path \<Rightarrow> string"

text \<open>\<^verbatim>\<open>FileSnapshot.from_path\<close>.\<close>

definition from_path :: "runtime \<Rightarrow> filesystem \<Rightarrow> path \<Rightarrow> bool \<Rightarrow> FileSnapshot" where
  "from_path rt fs p compute_hash =
     (if \<not> fs_exists fs p
      then \<lparr>s_path = p, s_size = 0, s_mtime = 0, s_hash = [], s_exists = False\<rparr>
      else
        let hash_val = (if compute_hash \<and> fs_is_file fs p
                        then md5_hexdigest rt (fs_read fs p) else [])
        in \<lparr>s_path = p, s_size = fs_size fs p, s_mtime = fs_mtime fs p,
             s_hash = hash_val, s_exists = True\<rparr>)"

subsection \<open>Observers\<close>

text \<open>
  A handler is a callable acting on some state of its own. It returns, raises an
  instance of \<^verbatim>\<open>Exception\<close>, or raises a \<^verbatim>\<open>BaseException\<close> outside that class
  (\<^verbatim>\<open>SystemExit\<close>, \<^verbatim>\<open>KeyboardInterrupt\<close>), which \<^verbatim>\<open>except Exception\<close> lets through.
  An instance \<^verbatim>\<open>e\<close> of \<^verbatim>\<open>Exception\<close> carries what \<^verbatim>\<open>str(e)\<close> yields: its text, or
  \<open>None\<close> when its \<^verbatim>\<open>__str__\<close> raises in turn.
\<close>

datatype raised = Exception "string option" | BaseException string

datatype outcome = Returned | Raised raised

text \<open>
  What can leave \<^verbatim>\<open>_emit\<close>: an exception the \<^verbatim>\<open>except\<close> clause does not catch, or
  the failure of \<^verbatim>\<open>str(e)\<close> while the log line for a caught \<^verbatim>\<open>e\<close> is built (the
  f-string of line 120 is evaluated inside the \<^verbatim>\<open>except\<close> block, unprotected).
\<close>

datatype escaped = Uncaught raised | Unformatted raised

type_synonym 's handler = "FileEvent \<Rightarrow> 's \<Rightarrow> outcome \<times> 's"

subsection \<open>The watcher\<close>

text \<open>
  \<open>thread\<close> holds the identity of the last \<^verbatim>\<open>Thread\<close> object created by
  \<^verbatim>\<open>start\<close>; \<open>spawned\<close> counts the threads created so far and supplies that identity.
\<close>

record 's FileWatcher =
  w_path :: path
  recursive :: bool
  patterns :: "string list"
  ignore_patterns :: "string list"
  poll_interval :: rat
  use_hash :: bool
  snapshots :: "(path \<times> FileSnapshot) list"
  handlers :: "EventType \<Rightarrow> 's handler list"
  running :: bool
  thread :: "nat option"
  spawned :: nat

text \<open>\<^verbatim>\<open>x or d\<close> on an optional list: \<^verbatim>\<open>None\<close> and the empty list are both falsy.\<close>

definition or_default :: "'a list option \<Rightarrow> 'a list \<Rightarrow> 'a list" where
  "or_default x d = (case x of None \<Rightarrow> d | Some [] \<Rightarrow> d | Some (v # vs) \<Rightarrow> v # vs)"

text \<open>\<^verbatim>\<open>FileWatcher.__init__\<close>.\<close>

definition init ::
  "path \<Rightarrow> bool \<Rightarrow> string list option \<Rightarrow> string list option \<Rightarrow> rat \<Rightarrow> bool \<Rightarrow> 's FileWatcher" where
  "init p rec pats ignore interval uh =
     \<lparr>w_path = p, recursive = rec,
      patterns = or_default pats [''*''],
      ignore_patterns = or_default ignore [],
      poll_interval = interval, use_hash = uh,
      snapshots = [],
      handlers = (\<lambda>t. []),
      running = False, thread = None, spawned = 0\<rparr>"

text \<open>\<^verbatim>\<open>on\<close> and \<^verbatim>\<open>on_any\<close>.\<close>

definition on :: "EventType \<Rightarrow> 's handler \<Rightarrow> 's FileWatcher \<Rightarrow> 's FileWatcher" where
  "on t h w = w\<lparr>handlers := (handlers w)(t := handlers w t @ [h])\<rparr>"

definition on_any :: "'s handler \<Rightarrow> 's FileWatcher \<Rightarrow> 's FileWatcher" where
  "on_any h w = w\<lparr>handlers := (\<lambda>t. handlers w t @ [h])\<rparr>"

text \<open>\<^verbatim>\<open>_matches\<close>: the two loops, each returning at the first pattern that matches.\<close>

fun any_match :: "runtime \<Rightarrow> path \<Rightarrow> string list \<Rightarrow> bool" where
  "any_match rt p [] = False"
| "any_match rt p (pat # pats) = (if path_match rt p pat then True else any_match rt p pats)"

definition matches :: "runtime \<Rightarrow> 's FileWatcher \<Rightarrow> path \<Rightarrow> bool" where
  "matches rt w p =
     (if any_match rt p (ignore_patterns w) then False
      else if any_match rt p (patterns w) then True
      else False)"

text \<open>\<^verbatim>\<open>_scan\<close>: the loop over the glob results, then the function.\<close>

fun scan_loop ::
  "runtime \<Rightarrow> filesystem \<Rightarrow> 's FileWatcher \<Rightarrow> path list \<Rightarrow> (path \<times> FileSnapshot) list
     \<Rightarrow> (path \<times> FileSnapshot) list" where
  "scan_loop rt fs w [] acc = acc"
| "scan_loop rt fs w (p # ps) acc =
     (if fs_is_file fs p \<and> matches rt w p
      then scan_loop rt fs w ps (AList.update p (from_path rt fs p (use_hash w)) acc)
      else scan_loop rt fs w ps acc)"

definition scan :: "runtime \<Rightarrow> 's FileWatcher \<Rightarrow> filesystem \<Rightarrow> (path \<times> FileSnapshot) list" where
  "scan rt w fs =
     (if fs_is_file fs (w_path w)
      then (if matches rt w (w_path w)
            then AList.update (w_path w) (from_path rt fs (w_path w) (use_hash w)) []
            else [])
      else scan_loop rt fs w
             (fs_glob fs (w_path w) (if recursive w then ''**/*'' else ''*'')) [])"

text \<open>
  \<^verbatim>\<open>_emit\<close>: the handlers of the event's type, in list order. The result carries the
  exception that left the loop, if any, the handlers' state and the error log.
\<close>

fun emit_loop ::
  "'s handler list \<Rightarrow> FileEvent \<Rightarrow> 's \<Rightarrow> string list \<Rightarrow> escaped option \<times> 's \<times> string list" where
  "emit_loop [] ev s lg = (None, s, lg)"
| "emit_loop (h # hs) ev s lg =
     (case h ev s of
        (Returned, s') \<Rightarrow> emit_loop hs ev s' lg
      | (Raised (Exception (Some msg)), s') \<Rightarrow>
          emit_loop hs ev s' (lg @ [''Handler error: '' @ msg])
      | (Raised (Exception None), s') \<Rightarrow> (Some (Unformatted (Exception None)), s', lg)
      | (Raised (BaseException n), s') \<Rightarrow> (Some (Uncaught (BaseException n)), s', lg))"

definition emit ::
  "'s FileWatcher \<Rightarrow> FileEvent \<Rightarrow> 's \<Rightarrow> string list \<Rightarrow> escaped option \<times> 's \<times> string list" where
  "emit w ev s lg = emit_loop (handlers w (e_type ev)) ev s lg"

text \<open>
  \<^verbatim>\<open>d[k]\<close> for a key of the dictionary; \<^verbatim>\<open>_check\<close> indexes only with keys taken from
  both key sets.
\<close>

definition getitem :: "(path \<times> FileSnapshot) list \<Rightarrow> path \<Rightarrow> FileSnapshot" where
  "getitem d k = the (map_of d k)"

definition keys :: "(path \<times> FileSnapshot) list \<Rightarrow> path set" where
  "keys d = set (map fst d)"

text \<open>The test of lines 137 to 141 on one path present in both dictionaries.\<close>

definition is_modified :: "bool \<Rightarrow> FileSnapshot \<Rightarrow> FileSnapshot \<Rightarrow> bool" where
  "is_modified uh prev_s curr_s =
     (if uh then s_hash prev_s \<noteq> s_hash curr_s
      else s_mtime prev_s \<noteq> s_mtime curr_s \<or> s_size prev_s \<noteq> s_size curr_s)"

text \<open>
  The body of \<^verbatim>\<open>_check\<close> between the scan and the assignment to
  \<^verbatim>\<open>self._snapshots\<close>: the three loops, in the order of the source.
\<close>

definition check_events ::
  "runtime \<Rightarrow> bool \<Rightarrow> (path \<times> FileSnapshot) list \<Rightarrow> (path \<times> FileSnapshot) list \<Rightarrow> FileEvent list" where
  "check_events rt uh snaps current =
     (let prev_paths = keys snaps; curr_paths = keys current
      in map (mk_event CREATED) (iter_set rt (curr_paths - prev_paths))
       @ map (mk_event DELETED) (iter_set rt (prev_paths - curr_paths))
       @ map (mk_event MODIFIED)
           (filter (\<lambda>p. is_modified uh (getitem snaps p) (getitem current p))
              (iter_set rt (prev_paths \<inter> curr_paths))))"

text \<open>\<^verbatim>\<open>_check\<close>.\<close>

definition check :: "runtime \<Rightarrow> 's FileWatcher \<Rightarrow> filesystem \<Rightarrow> FileEvent list \<times> 's FileWatcher" where
  "check rt w fs =
     (let current = scan rt w fs
      in (check_events rt (use_hash w) (snapshots w) current, w\<lparr>snapshots := current\<rparr>))"

text \<open>\<^verbatim>\<open>poll_once\<close>: an empty dictionary is falsy.\<close>

definition poll_once :: "runtime \<Rightarrow> 's FileWatcher \<Rightarrow> filesystem \<Rightarrow> FileEvent list \<times> 's FileWatcher" where
  "poll_once rt w fs =
     (if snapshots w = [] then ([], w\<lparr>snapshots := scan rt w fs\<rparr>)
      else check rt w fs)"

text \<open>\<^verbatim>\<open>start\<close> and \<^verbatim>\<open>stop\<close>; joining the thread changes no field.\<close>

definition start :: "'s FileWatcher \<Rightarrow> 's FileWatcher" where
  "start w =
     (if running w then w
      else w\<lparr>running := True, thread := Some (spawned w), spawned := Suc (spawned w)\<rparr>)"

definition stop :: "'s FileWatcher \<Rightarrow> 's FileWatcher" where
  "stop w = w\<lparr>running := False\<rparr>"

text \<open>
  \<^verbatim>\<open>_poll\<close>, the body of the thread. The loop runs one cycle for each time it reads
  \<^verbatim>\<open>self._running\<close> as true; the list gives the file system seen in each such cycle.
  An exception that leaves \<^verbatim>\<open>_emit\<close> ends the thread.
\<close>

fun emit_all ::
  "'s FileWatcher \<Rightarrow> FileEvent list \<Rightarrow> 's \<Rightarrow> string list \<Rightarrow> escaped option \<times> 's \<times> string list" where
  "emit_all w [] s lg = (None, s, lg)"
| "emit_all w (ev # evs) s lg =
     (case emit w ev s lg of
        (None, s', lg') \<Rightarrow> emit_all w evs s' lg'
      | (Some x, s', lg') \<Rightarrow> (Some x, s', lg'))"

fun poll_cycles ::
  "runtime \<Rightarrow> 's FileWatcher \<Rightarrow> filesystem list \<Rightarrow> FileEvent list list \<Rightarrow> 's \<Rightarrow> string list
     \<Rightarrow> escaped option \<times> FileEvent list list \<times> 's FileWatcher \<times> 's \<times> string list" where
  "poll_cycles rt w [] out s lg = (None, out, w, s, lg)"
| "poll_cycles rt w (fs # fss) out s lg =
     (case check rt w fs of
        (events, w') \<Rightarrow>
          (case emit_all w' events s lg of
             (None, s', lg') \<Rightarrow> poll_cycles rt w' fss (out @ [events]) s' lg'
           | (Some x, s', lg') \<Rightarrow> (Some x, out @ [events], w', s', lg')))"

definition poll ::
  "runtime \<Rightarrow> 's FileWatcher \<Rightarrow> filesystem \<Rightarrow> filesystem list \<Rightarrow> 's \<Rightarrow> string list
     \<Rightarrow> escaped option \<times> FileEvent list list \<times> 's FileWatcher \<times> 's \<times> string list" where
  "poll rt w fs0 fss s lg = poll_cycles rt (w\<lparr>snapshots := scan rt w fs0\<rparr>) fss [] s lg"

subsection \<open>Sequences of operations on one watcher\<close>

text \<open>
  What a client or the polling thread can do to a watcher, one operation at a time:
  \<^verbatim>\<open>poll_once\<close>, the first line of \<^verbatim>\<open>_poll\<close> (the baseline scan), one pass of
  its loop (the events \<^verbatim>\<open>_check\<close> returns), the registrations, \<^verbatim>\<open>start\<close> and
  \<^verbatim>\<open>stop\<close>. \<open>run\<close> collects the events produced along a sequence.
\<close>

datatype 's action =
    PollOnce filesystem
  | Baseline filesystem
  | Cycle filesystem
  | On EventType "'s handler"
  | OnAny "'s handler"
  | Start
  | Stop

fun step :: "runtime \<Rightarrow> 's FileWatcher \<Rightarrow> 's action \<Rightarrow> FileEvent list \<times> 's FileWatcher" where
  "step rt w (PollOnce fs) = poll_once rt w fs"
| "step rt w (Baseline fs) = ([], w\<lparr>snapshots := scan rt w fs\<rparr>)"
| "step rt w (Cycle fs) = check rt w fs"
| "step rt w (On t h) = ([], on t h w)"
| "step rt w (OnAny h) = ([], on_any h w)"
| "step rt w Start = ([], start w)"
| "step rt w Stop = ([], stop w)"

fun run :: "runtime \<Rightarrow> 's FileWatcher \<Rightarrow> 's action list \<Rightarrow> FileEvent list \<times> 's FileWatcher" where
  "run rt w [] = ([], w)"
| "run rt w (a # as) =
     (case step rt w a of (evs, w') \<Rightarrow>
        (case run rt w' as of (evs', w'') \<Rightarrow> (evs @ evs', w'')))"

subsection \<open>Vocabulary of the properties\<close>

text \<open>The number of events of one type for one path in an event list.\<close>

definition count_events :: "EventType \<Rightarrow> path \<Rightarrow> FileEvent list \<Rightarrow> nat" where
  "count_events t p evs = length (filter (\<lambda>e. e_type e = t \<and> e_path e = p) evs)"

text \<open>Every stored snapshot belongs to a path that passes the filter.\<close>

definition filtered :: "runtime \<Rightarrow> 's FileWatcher \<Rightarrow> bool" where
  "filtered rt w \<longleftrightarrow> (\<forall>q \<in> keys (snapshots w). matches rt w q)"

text \<open>
  The outcomes \<^verbatim>\<open>_emit\<close> absorbs: a return, and an instance of \<^verbatim>\<open>Exception\<close> whose
  text can be computed for the log. A handler with such outcomes only, and a watcher
  with such handlers only.
\<close>

fun absorbed :: "outcome \<Rightarrow> bool" where
  "absorbed Returned = True"
| "absorbed (Raised (Exception (Some msg))) = True"
| "absorbed (Raised (Exception None)) = False"
| "absorbed (Raised (BaseException n)) = False"

definition catchable :: "'s handler \<Rightarrow> bool" where
  "catchable h \<longleftrightarrow> (\<forall>ev s. absorbed (fst (h ev s)))"

definition all_catchable :: "'s FileWatcher \<Rightarrow> bool" where
  "all_catchable w \<longleftrightarrow> (\<forall>t. \<forall>h \<in> set (handlers w t). catchable h)"

text \<open>
  The rule of the specification for hashing mode, in its own words: digests are compared
  only when both are non-empty, and the entry falls back to the metadata comparison
  otherwise. It is compared below with \<open>is_modified True\<close>, the rule of the code.
\<close>

text \<open>
  Calling every handler registered for the type of an event, in the order of the list:
  the state the handlers act on after the event has been delivered to all of them.
\<close>

definition deliver :: "'s FileWatcher \<Rightarrow> 's \<Rightarrow> FileEvent \<Rightarrow> 's" where
  "deliver w s ev = foldl (\<lambda>s h. snd (h ev s)) s (handlers w (e_type ev))"

definition is_modified_spec :: "FileSnapshot \<Rightarrow> FileSnapshot \<Rightarrow> bool" where
  "is_modified_spec prev_s curr_s =
     (if s_hash prev_s \<noteq> [] \<and> s_hash curr_s \<noteq> [] then s_hash prev_s \<noteq> s_hash curr_s
      else s_mtime prev_s \<noteq> s_mtime curr_s \<or> s_size prev_s \<noteq> s_size curr_s)"

subsection \<open>A concrete runtime, file systems and watchers for the examples\<close>

text \<open>
  The sample runtime matches a pattern with the wildcards \<^verbatim>\<open>*\<close> and \<^verbatim>\<open>?\<close> against
  the last component of the path, tags the content instead of hashing it, and iterates
  over a set in sorted order.
\<close>

fun wildcard :: "string \<Rightarrow> string \<Rightarrow> bool" where
  "wildcard [] [] = True"
| "wildcard [] (c # cs) = False"
| "wildcard (q # qs) [] = (q = CHR ''*'' \<and> wildcard qs [])"
| "wildcard (q # qs) (c # cs) =
     (if q = CHR ''*'' then wildcard qs (c # cs) \<or> wildcard (q # qs) cs
      else (q = CHR ''?'' \<or> q = c) \<and> wildcard qs cs)"

definition basename :: "path \<Rightarrow> string" where
  "basename p = rev (takeWhile (\<lambda>c. c \<noteq> CHR ''/'') (rev p))"

definition sample_rt :: runtime where
  "sample_rt = \<lparr>path_match = (\<lambda>p pat. wildcard pat (basename p)),
                md5_hexdigest = (\<lambda>b. ''md5:'' @ b),
                iter_set = sorted_list_of_set\<rparr>"

text \<open>
  A directory \<open>d\<close> holding exactly the listed regular files, each with its size,
  modification time and content.
\<close>

definition listing :: "path \<Rightarrow> (path \<times> int \<times> rat \<times> string) list \<Rightarrow> filesystem" where
  "listing d files =
     \<lparr>fs_exists = (\<lambda>p. if p = d then True
                         else (case map_of files p of None \<Rightarrow> False | Some x \<Rightarrow> True)),
      fs_is_file = (\<lambda>p. case map_of files p of None \<Rightarrow> False | Some x \<Rightarrow> True),
      fs_glob = (\<lambda>r pat. if r = d then map fst files else []),
      fs_size = (\<lambda>p. case map_of files p of Some (n, m, c) \<Rightarrow> n | None \<Rightarrow> 0),
      fs_mtime = (\<lambda>p. case map_of files p of Some (n, m, c) \<Rightarrow> m | None \<Rightarrow> 0),
      fs_read = (\<lambda>p. case map_of files p of Some (n, m, c) \<Rightarrow> c | None \<Rightarrow> [])\<rparr>"

definition empty_dir :: filesystem where
  "empty_dir = listing ''d'' []"

definition one_file :: filesystem where
  "one_file = listing ''d'' [(''d/x.txt'', 1, 5, ''A'')]"

definition two_files :: filesystem where
  "two_files = listing ''d'' [(''d/a.txt'', 1, 5, ''A''), (''d/b.log'', 2, 6, ''BB'')]"

definition three_files :: filesystem where
  "three_files =
     listing ''d'' [(''d/a.txt'', 1, 5, ''A''), (''d/b.log'', 3, 7, ''BBB''), (''d/c.txt'', 1, 8, ''C'')]"

definition snap :: "path \<Rightarrow> int \<Rightarrow> rat \<Rightarrow> string \<Rightarrow> path \<times> FileSnapshot" where
  "snap p n m h = (p, \<lparr>s_path = p, s_size = n, s_mtime = m, s_hash = h, s_exists = True\<rparr>)"

definition sample_prev :: "(path \<times> FileSnapshot) list" where
  "sample_prev = [snap ''d/a'' 1 10 ''h0'', snap ''d/b'' 2 10 ''h1'', snap ''d/c'' 3 10 ''h3'']"

definition sample_cur :: "(path \<times> FileSnapshot) list" where
  "sample_cur = [snap ''d/b'' 2 10 ''h2'', snap ''d/c'' 4 11 ''h3'', snap ''d/e'' 1 12 ''h4'']"

definition unhashed_prev :: "(path \<times> FileSnapshot) list" where
  "unhashed_prev = [snap ''d/f'' 1 10 [], snap ''d/g'' 1 10 []]"

definition unhashed_cur :: "(path \<times> FileSnapshot) list" where
  "unhashed_cur = [snap ''d/f'' 2 11 [], snap ''d/g'' 1 10 ''abc'']"

definition default_watcher :: "unit FileWatcher" where
  "default_watcher = init ''d'' True None None 1 False"

definition txt_watcher :: "unit FileWatcher" where
  "txt_watcher = init ''d'' True (Some [''*.txt'']) None 1 False"

text \<open>
  Handlers that record their invocation: one that fails with an \<^verbatim>\<open>Exception\<close>, one
  that returns, and one that leaves through \<^verbatim>\<open>sys.exit\<close>.
\<close>

definition failing_handler :: "string list handler" where
  "failing_handler ev s = (Raised (Exception (Some ''boom'')), s @ [''first''])"

definition exiting_handler :: "string list handler" where
  "exiting_handler ev s = (Raised (BaseException ''SystemExit''), s @ [''exit''])"

definition recording_handler :: "string list handler" where
  "recording_handler ev s = (Returned, s @ [''second''])"

definition sample_watcher :: "string list FileWatcher" where
  "sample_watcher =
     on CREATED recording_handler (on CREATED failing_handler (init ''d'' True None None 1 False))"

definition exiting_watcher :: "string list FileWatcher" where
  "exiting_watcher =
     on CREATED recording_handler (on CREATED exiting_handler (init ''d'' True None None 1 False))"

section \<open>The diff of two snapshot sets\<close>

subsection \<open>Auxiliary facts\<close>

lemma finite_keys: "finite (keys d)"
  by (simp add: keys_def)

lemma keys_update: "keys (AList.update k v d) = insert k (keys d)"
  by (simp add: keys_def AList.dom_update)

lemma keys_Nil: "keys [] = {}"
  by (simp add: keys_def)

text \<open>Indexing with a key of the dictionary never raises \<^verbatim>\<open>KeyError\<close>.\<close>

lemma getitem_defined: "p \<in> keys d \<Longrightarrow> map_of d p = Some (getitem d p)"
  by (cases "map_of d p") (auto simp: keys_def getitem_def map_of_eq_None_iff)

lemma iteration_set: "iteration it \<Longrightarrow> finite S \<Longrightarrow> set (it S) = S"
  by (simp add: iteration_def)

lemma iteration_distinct: "iteration it \<Longrightarrow> finite S \<Longrightarrow> distinct (it S)"
  by (simp add: iteration_def)

lemma iteration_empty: "iteration it \<Longrightarrow> it {} = []"
  using iteration_set [of it "{}"] by simp

lemma iteration_sample: "iteration (iter_set sample_rt)"
  by (simp add: sample_rt_def iteration_def)

lemma mk_event_sel [simp]:
  "e_type (mk_event t p) = t" "e_path (mk_event t p) = p"
  by (simp_all add: mk_event_def)

lemma count_in_distinct:
  "distinct xs \<Longrightarrow> length (filter (\<lambda>x. x = p) xs) = (if p \<in> set xs then 1 else 0)"
  by (induction xs) auto

lemma count_events_append:
  "count_events t p (xs @ ys) = count_events t p xs + count_events t p ys"
  by (simp add: count_events_def)

lemma count_events_Cons:
  "count_events t p (e # evs) =
     (if e_type e = t \<and> e_path e = p then 1 else 0) + count_events t p evs"
  by (simp add: count_events_def)

lemma count_events_Nil: "count_events t p [] = 0"
  by (simp add: count_events_def)

lemma count_events_map_length:
  "count_events t p (map (mk_event t') xs) =
     (if t = t' then length (filter (\<lambda>x. x = p) xs) else 0)"
  by (induction xs) (simp_all add: count_events_Cons count_events_Nil)

lemma count_events_map:
  "distinct xs \<Longrightarrow>
     count_events t p (map (mk_event t') xs) = (if t = t' \<and> p \<in> set xs then 1 else 0)"
  by (simp add: count_events_map_length count_in_distinct)

lemma set_check_events:
  "set (check_events rt uh prev cur) =
     mk_event CREATED ` set (iter_set rt (keys cur - keys prev))
   \<union> mk_event DELETED ` set (iter_set rt (keys prev - keys cur))
   \<union> mk_event MODIFIED ` {p \<in> set (iter_set rt (keys prev \<inter> keys cur)).
        is_modified uh (getitem prev p) (getitem cur p)}"
  unfolding check_events_def Let_def set_append set_map set_filter by (simp only: Un_assoc)

text \<open>Every event names a path of one of the two snapshot sets.\<close>

lemma check_events_paths:
  assumes "iteration (iter_set rt)" and "e \<in> set (check_events rt uh prev cur)"
  shows "e_path e \<in> keys prev \<union> keys cur"
proof -
  have s: "set (iter_set rt (keys cur - keys prev)) = keys cur - keys prev"
       "set (iter_set rt (keys prev - keys cur)) = keys prev - keys cur"
       "set (iter_set rt (keys prev \<inter> keys cur)) = keys prev \<inter> keys cur"
    using assms(1) by (simp_all add: iteration_set finite_keys)
  from assms(2) obtain t p where e: "e = mk_event t p" and p: "p \<in> keys prev \<union> keys cur"
    unfolding set_check_events s by blast
  then show ?thesis by simp
qed

text \<open>
  The third loop of \<^verbatim>\<open>_check\<close>: one \<^verbatim>\<open>modified\<close> event for a path of both sets
  whose snapshots the test of the active mode tells apart, none for any other path.
\<close>

lemma count_modified:
  assumes "iteration (iter_set rt)"
  shows "count_events MODIFIED p (check_events rt uh prev cur) =
           (if p \<in> keys prev \<inter> keys cur \<and> is_modified uh (getitem prev p) (getitem cur p)
            then 1 else 0)"
proof -
  let ?S = "keys prev \<inter> keys cur"
  let ?ms = "filter (\<lambda>p. is_modified uh (getitem prev p) (getitem cur p)) (iter_set rt ?S)"
  have fin: "finite ?S" by (simp add: finite_keys)
  have d: "distinct ?ms" using assms fin by (simp add: iteration_distinct)
  have s: "set (iter_set rt ?S) = ?S" using assms fin by (rule iteration_set)
  have "count_events MODIFIED p (check_events rt uh prev cur) =
          count_events MODIFIED p (map (mk_event MODIFIED) ?ms)"
    unfolding check_events_def Let_def count_events_append
    by (simp add: count_events_map_length)
  also have "\<dots> = (if p \<in> set ?ms then 1 else 0)"
    using d by (simp add: count_events_map del: set_filter)
  also have "\<dots> = (if p \<in> ?S \<and> is_modified uh (getitem prev p) (getitem cur p) then 1 else 0)"
    using s by simp
  finally show ?thesis .
qed

lemma keys_sample:
  "keys sample_prev = {''d/a'', ''d/b'', ''d/c''}"
  "keys sample_cur = {''d/b'', ''d/c'', ''d/e''}"
  "keys unhashed_prev = {''d/f'', ''d/g''}"
  "keys unhashed_cur = {''d/f'', ''d/g''}"
  by (simp_all add: keys_def sample_prev_def sample_cur_def unhashed_prev_def unhashed_cur_def
      snap_def)

lemma getitem_sample:
  "getitem sample_prev ''d/b'' = snd (snap ''d/b'' 2 10 ''h1'')"
  "getitem sample_cur ''d/b'' = snd (snap ''d/b'' 2 10 ''h2'')"
  "getitem sample_prev ''d/c'' = snd (snap ''d/c'' 3 10 ''h3'')"
  "getitem sample_cur ''d/c'' = snd (snap ''d/c'' 4 11 ''h3'')"
  "getitem unhashed_prev ''d/f'' = snd (snap ''d/f'' 1 10 [])"
  "getitem unhashed_cur ''d/f'' = snd (snap ''d/f'' 2 11 [])"
  "getitem unhashed_prev ''d/g'' = snd (snap ''d/g'' 1 10 [])"
  "getitem unhashed_cur ''d/g'' = snd (snap ''d/g'' 1 10 ''abc'')"
  by (simp_all add: getitem_def sample_prev_def sample_cur_def unhashed_prev_def
      unhashed_cur_def snap_def)

subsection \<open>Identical snapshot sets\<close>

text \<open>
  C7. For every snapshot set \<open>S\<close>, the diff of \<open>S\<close> against itself is the empty event
  list, in hashing mode and in metadata mode alike.
\<close>

theorem diff_identical_is_empty:
  assumes "iteration (iter_set rt)"
  shows "check_events rt uh S S = []"
  using assms
  by (simp add: check_events_def Let_def iteration_empty is_modified_def)

text \<open>C7 on the sample snapshot set, in both modes.\<close>

theorem diff_identical_is_empty_witness:
  "iteration (iter_set sample_rt)
   \<and> check_events sample_rt True sample_prev sample_prev = []
   \<and> check_events sample_rt False sample_prev sample_prev = []"
  using iteration_sample
    diff_identical_is_empty [OF iteration_sample, of True sample_prev]
    diff_identical_is_empty [OF iteration_sample, of False sample_prev]
  by simp

subsection \<open>Created and deleted paths\<close>

text \<open>
  C4. For every pair of snapshot sets, the diff holds exactly one \<^verbatim>\<open>created\<close> event
  for each path of the current set that the previous set lacks, exactly one
  \<^verbatim>\<open>deleted\<close> event for each path of the previous set that the current set lacks, and
  no \<^verbatim>\<open>created\<close> or \<^verbatim>\<open>deleted\<close> event for any other path.
\<close>

theorem created_deleted_exactly_once:
  assumes "iteration (iter_set rt)"
  shows "count_events CREATED p (check_events rt uh prev cur) =
           (if p \<in> keys cur - keys prev then 1 else 0)
       \<and> count_events DELETED p (check_events rt uh prev cur) =
           (if p \<in> keys prev - keys cur then 1 else 0)"
proof -
  let ?it = "iter_set rt"
  have fin: "finite (keys cur - keys prev)" "finite (keys prev - keys cur)"
    "finite (keys prev \<inter> keys cur)"
    by (simp_all add: finite_keys)
  have d: "distinct (?it (keys cur - keys prev))" "distinct (?it (keys prev - keys cur))"
     "distinct (filter (\<lambda>p. is_modified uh (getitem prev p) (getitem cur p))
        (?it (keys prev \<inter> keys cur)))"
    using assms fin by (simp_all add: iteration_distinct)
  have s: "set (?it (keys cur - keys prev)) = keys cur - keys prev"
     "set (?it (keys prev - keys cur)) = keys prev - keys cur"
    using assms fin by (simp_all add: iteration_set)
  show ?thesis
    unfolding check_events_def Let_def count_events_append
    by (simp add: count_events_map d s)
qed

text \<open>
  C4 on the sample sets: \<open>d/e\<close> is new, \<open>d/a\<close> is gone, \<open>d/b\<close> is in both.
\<close>

theorem created_deleted_exactly_once_witness:
  "iteration (iter_set sample_rt)
   \<and> count_events CREATED ''d/e'' (check_events sample_rt False sample_prev sample_cur) = 1
   \<and> count_events DELETED ''d/e'' (check_events sample_rt False sample_prev sample_cur) = 0
   \<and> count_events DELETED ''d/a'' (check_events sample_rt False sample_prev sample_cur) = 1
   \<and> count_events CREATED ''d/a'' (check_events sample_rt False sample_prev sample_cur) = 0
   \<and> count_events CREATED ''d/b'' (check_events sample_rt False sample_prev sample_cur) = 0
   \<and> count_events DELETED ''d/b'' (check_events sample_rt False sample_prev sample_cur) = 0"
  using iteration_sample
    created_deleted_exactly_once [OF iteration_sample, of "''d/e''" False sample_prev sample_cur]
    created_deleted_exactly_once [OF iteration_sample, of "''d/a''" False sample_prev sample_cur]
    created_deleted_exactly_once [OF iteration_sample, of "''d/b''" False sample_prev sample_cur]
  by (simp add: keys_sample)

subsection \<open>Order of the events\<close>

text \<open>
  C5. For every pair of snapshot sets, the event list of the diff is made of the
  \<^verbatim>\<open>created\<close> events, then the \<^verbatim>\<open>deleted\<close> events, then the \<^verbatim>\<open>modified\<close> events.
\<close>

theorem events_grouped_by_type:
  "\<exists>cs ds ms. check_events rt uh prev cur = cs @ ds @ ms
      \<and> (\<forall>e \<in> set cs. e_type e = CREATED)
      \<and> (\<forall>e \<in> set ds. e_type e = DELETED)
      \<and> (\<forall>e \<in> set ms. e_type e = MODIFIED)"
  unfolding check_events_def Let_def
  by (intro exI conjI, rule refl) auto

text \<open>C5 on the sample sets, with the list the diff returns there.\<close>

theorem events_grouped_by_type_witness:
  "check_events sample_rt False sample_prev sample_cur =
     [mk_event CREATED ''d/e'', mk_event DELETED ''d/a'', mk_event MODIFIED ''d/c'']
   \<and> (\<exists>cs ds ms. check_events sample_rt False sample_prev sample_cur = cs @ ds @ ms
        \<and> (\<forall>e \<in> set cs. e_type e = CREATED)
        \<and> (\<forall>e \<in> set ds. e_type e = DELETED)
        \<and> (\<forall>e \<in> set ms. e_type e = MODIFIED))"
proof
  show "check_events sample_rt False sample_prev sample_cur =
     [mk_event CREATED ''d/e'', mk_event DELETED ''d/a'', mk_event MODIFIED ''d/c'']"
    by code_simp
  show "\<exists>cs ds ms. check_events sample_rt False sample_prev sample_cur = cs @ ds @ ms
        \<and> (\<forall>e \<in> set cs. e_type e = CREATED)
        \<and> (\<forall>e \<in> set ds. e_type e = DELETED)
        \<and> (\<forall>e \<in> set ms. e_type e = MODIFIED)"
    by (rule events_grouped_by_type)
qed

subsection \<open>Modified paths, metadata mode\<close>

text \<open>
  C6. With content hashing disabled, a path of both snapshot sets gets a \<^verbatim>\<open>modified\<close>
  event if and only if its mtime differs or its size differs between the two
  snapshots; with equal mtime and equal size there is no event, whatever the digests
  (and so the content) are.
\<close>

theorem metadata_mode_modified_iff:
  assumes "iteration (iter_set rt)"
  shows "count_events MODIFIED p (check_events rt False prev cur) =
           (if p \<in> keys prev \<inter> keys cur \<and>
               (s_mtime (getitem prev p) \<noteq> s_mtime (getitem cur p)
                \<or> s_size (getitem prev p) \<noteq> s_size (getitem cur p))
            then 1 else 0)"
  using count_modified [OF assms, of p False prev cur]
  by (simp add: is_modified_def)

text \<open>
  C6 on the sample sets: \<open>d/c\<close> changed its size and mtime; \<open>d/b\<close> kept both while
  its digest changed.
\<close>

theorem metadata_mode_modified_iff_witness:
  "iteration (iter_set sample_rt)
   \<and> count_events MODIFIED ''d/c'' (check_events sample_rt False sample_prev sample_cur) = 1
   \<and> count_events MODIFIED ''d/b'' (check_events sample_rt False sample_prev sample_cur) = 0
   \<and> s_hash (getitem sample_prev ''d/b'') \<noteq> s_hash (getitem sample_cur ''d/b'')"
  using iteration_sample
    metadata_mode_modified_iff [OF iteration_sample, of "''d/c''" sample_prev sample_cur]
    metadata_mode_modified_iff [OF iteration_sample, of "''d/b''" sample_prev sample_cur]
  by (simp add: keys_sample getitem_sample snap_def)

subsection \<open>Modified paths, hashing mode\<close>

text \<open>
  C2, as the specification states it, fails on the code. In hashing mode \<open>d/f\<close> has an
  empty digest on both sides and a changed size and mtime: the rule of the
  specification falls back to the metadata and reports it, the code reports nothing.
  \<open>d/g\<close> has an empty digest before and a digest after, with equal metadata: the rule
  of the specification reports nothing, the code compares the two strings and reports
  it.
\<close>

theorem hash_mode_no_metadata_fallback_counterexample:
  "check_events sample_rt True unhashed_prev unhashed_cur = [mk_event MODIFIED ''d/g'']
   \<and> is_modified_spec (getitem unhashed_prev ''d/f'') (getitem unhashed_cur ''d/f'')
   \<and> \<not> is_modified True (getitem unhashed_prev ''d/f'') (getitem unhashed_cur ''d/f'')
   \<and> \<not> is_modified_spec (getitem unhashed_prev ''d/g'') (getitem unhashed_cur ''d/g'')
   \<and> is_modified True (getitem unhashed_prev ''d/g'') (getitem unhashed_cur ''d/g'')"
  by code_simp

text \<open>
  C2, amended. In hashing mode a path of both snapshot sets gets a \<^verbatim>\<open>modified\<close> event
  if and only if its two digest strings differ, the empty digest being a string like
  any other: two empty digests are never told apart, and the metadata is not consulted.
\<close>

theorem hash_mode_compares_digest_strings:
  assumes "iteration (iter_set rt)"
  shows "count_events MODIFIED p (check_events rt True prev cur) =
           (if p \<in> keys prev \<inter> keys cur \<and> s_hash (getitem prev p) \<noteq> s_hash (getitem cur p)
            then 1 else 0)"
  using count_modified [OF assms, of p True prev cur]
  by (simp add: is_modified_def)

text \<open>
  C2, amended, on the sample sets: \<open>d/b\<close> changed its digest only, \<open>d/c\<close> its
  metadata only, and \<open>d/f\<close> its metadata with both digests empty.
\<close>

theorem hash_mode_compares_digest_strings_witness:
  "iteration (iter_set sample_rt)
   \<and> count_events MODIFIED ''d/b'' (check_events sample_rt True sample_prev sample_cur) = 1
   \<and> count_events MODIFIED ''d/c'' (check_events sample_rt True sample_prev sample_cur) = 0
   \<and> count_events MODIFIED ''d/f'' (check_events sample_rt True unhashed_prev unhashed_cur) = 0"
  using iteration_sample
    hash_mode_compares_digest_strings [OF iteration_sample, of "''d/c''" sample_prev sample_cur]
    hash_mode_compares_digest_strings [OF iteration_sample, of "''d/b''" sample_prev sample_cur]
    hash_mode_compares_digest_strings [OF iteration_sample, of "''d/f''" unhashed_prev unhashed_cur]
  by (simp add: keys_sample getitem_sample snap_def)

section \<open>The filter policy\<close>

lemma any_match_iff: "any_match rt p pats \<longleftrightarrow> (\<exists>pat \<in> set pats. path_match rt p pat)"
  by (induction pats) auto

lemma matches_iff:
  "matches rt w p \<longleftrightarrow>
     (\<forall>pat \<in> set (ignore_patterns w). \<not> path_match rt p pat)
     \<and> (\<exists>pat \<in> set (patterns w). path_match rt p pat)"
  by (auto simp: matches_def any_match_iff)

text \<open>The filter reads the two pattern lists of the watcher and nothing else.\<close>

lemma matches_cong:
  "patterns w' = patterns w \<Longrightarrow> ignore_patterns w' = ignore_patterns w \<Longrightarrow>
     matches rt w' = matches rt w"
  by (auto simp: matches_def fun_eq_iff)

lemma filtered_cong:
  assumes "snapshots w' = snapshots w" "patterns w' = patterns w"
    "ignore_patterns w' = ignore_patterns w"
  shows "filtered rt w' = filtered rt w"
  using assms matches_cong [OF assms(2,3)] by (simp add: filtered_def)

lemma scan_loop_keys:
  "q \<in> keys (scan_loop rt fs w ps acc) \<Longrightarrow> q \<in> keys acc \<or> matches rt w q"
proof (induction ps arbitrary: acc)
  case Nil
  then show ?case by simp
next
  case (Cons a ps)
  show ?case
  proof (cases "fs_is_file fs a \<and> matches rt w a")
    case True
    with Cons.prems
    have "q \<in> keys (scan_loop rt fs w ps (AList.update a (from_path rt fs a (use_hash w)) acc))"
      by simp
    from Cons.IH [OF this] True show ?thesis
      by (auto simp: keys_update)
  next
    case False
    with Cons.prems have "q \<in> keys (scan_loop rt fs w ps acc)" by auto
    from Cons.IH [OF this] show ?thesis .
  qed
qed

text \<open>Every path of a scan passes the filter, for a file root and a directory root.\<close>

lemma scan_keys_match:
  assumes "q \<in> keys (scan rt w fs)"
  shows "matches rt w q"
proof (cases "fs_is_file fs (w_path w)")
  case True
  with assms show ?thesis
    by (cases "matches rt w (w_path w)") (simp_all add: scan_def keys_def)
next
  case False
  with assms
  have "q \<in> keys (scan_loop rt fs w
                    (fs_glob fs (w_path w) (if recursive w then ''**/*'' else ''*'')) [])"
    by (simp add: scan_def)
  from scan_loop_keys [OF this] show ?thesis by (simp add: keys_Nil)
qed

lemma scan_snapshots_irrelevant: "scan rt (w\<lparr>snapshots := x\<rparr>) fs = scan rt w fs"
proof -
  have m: "matches rt (w\<lparr>snapshots := x\<rparr>) = matches rt w" by (rule matches_cong) simp_all
  have "scan_loop rt fs (w\<lparr>snapshots := x\<rparr>) ps acc = scan_loop rt fs w ps acc" for ps acc
    by (induction ps arbitrary: acc) (simp_all add: m)
  then show ?thesis by (simp add: scan_def m)
qed

lemma baseline_filtered: "filtered rt (w\<lparr>snapshots := scan rt w fs\<rparr>)"
proof -
  have "matches rt (w\<lparr>snapshots := scan rt w fs\<rparr>) = matches rt w"
    by (rule matches_cong) simp_all
  then show ?thesis
    using scan_keys_match by (auto simp: filtered_def)
qed

lemma check_filtered:
  assumes it: "iteration (iter_set rt)" and f: "filtered rt w" and c: "check rt w fs = (evs, w')"
  shows "filtered rt w' \<and> (\<forall>e \<in> set evs. matches rt w (e_path e))"
proof -
  from c have w': "w' = w\<lparr>snapshots := scan rt w fs\<rparr>"
    and evs: "evs = check_events rt (use_hash w) (snapshots w) (scan rt w fs)"
    by (simp_all add: check_def Let_def)
  have 1: "filtered rt w'"
    unfolding w' by (rule baseline_filtered)
  have 2: "matches rt w (e_path e)" if "e \<in> set evs" for e
  proof -
    from that have "e_path e \<in> keys (snapshots w) \<union> keys (scan rt w fs)"
      unfolding evs by (rule check_events_paths [OF it])
    then show ?thesis using f scan_keys_match by (auto simp: filtered_def)
  qed
  from 1 2 show ?thesis by blast
qed

lemma step_config:
  "step rt w a = (evs, w') \<Longrightarrow>
     patterns w' = patterns w \<and> ignore_patterns w' = ignore_patterns w"
  by (cases a)
    (auto simp: poll_once_def check_def Let_def on_def on_any_def start_def stop_def
      split: if_splits)

text \<open>Each operation keeps the invariant and produces events for filtered paths only.\<close>

lemma step_filtered:
  assumes it: "iteration (iter_set rt)" and f: "filtered rt w" and s: "step rt w a = (evs, w')"
  shows "filtered rt w' \<and> (\<forall>e \<in> set evs. matches rt w (e_path e))"
proof (cases a)
  case (PollOnce fs)
  show ?thesis
  proof (cases "snapshots w = []")
    case True
    with s PollOnce have "evs = []" "w' = w\<lparr>snapshots := scan rt w fs\<rparr>"
      by (simp_all add: poll_once_def)
    then show ?thesis by (simp add: baseline_filtered)
  next
    case False
    with s PollOnce have "check rt w fs = (evs, w')" by (simp add: poll_once_def)
    from check_filtered [OF it f this] show ?thesis .
  qed
next
  case (Baseline fs)
  with s have "evs = []" "w' = w\<lparr>snapshots := scan rt w fs\<rparr>" by simp_all
  then show ?thesis by (simp add: baseline_filtered)
next
  case (Cycle fs)
  with s have "check rt w fs = (evs, w')" by simp
  from check_filtered [OF it f this] show ?thesis .
next
  case (On t h)
  with s have e: "evs = []" and w': "w' = on t h w" by simp_all
  have "filtered rt w' = filtered rt w"
    unfolding w' by (rule filtered_cong) (simp_all add: on_def)
  with f e show ?thesis by simp
next
  case (OnAny h)
  with s have e: "evs = []" and w': "w' = on_any h w" by simp_all
  have "filtered rt w' = filtered rt w"
    unfolding w' by (rule filtered_cong) (simp_all add: on_any_def)
  with f e show ?thesis by simp
next
  case Start
  with s have e: "evs = []" and w': "w' = start w" by simp_all
  have "filtered rt w' = filtered rt w"
    unfolding w' by (rule filtered_cong) (simp_all add: start_def)
  with f e show ?thesis by simp
next
  case Stop
  with s have e: "evs = []" and w': "w' = stop w" by simp_all
  have "filtered rt w' = filtered rt w"
    unfolding w' by (rule filtered_cong) (simp_all add: stop_def)
  with f e show ?thesis by simp
qed

lemma run_filtered:
  "iteration (iter_set rt) \<Longrightarrow> filtered rt w \<Longrightarrow> run rt w as = (evs, w') \<Longrightarrow>
     filtered rt w' \<and> (\<forall>e \<in> set evs. matches rt w (e_path e))
     \<and> patterns w' = patterns w \<and> ignore_patterns w' = ignore_patterns w"
proof (induction as arbitrary: w evs w')
  case Nil
  then show ?case by simp
next
  case (Cons a as)
  obtain e1 w1 where s: "step rt w a = (e1, w1)" by (cases "step rt w a")
  obtain e2 w2 where r: "run rt w1 as = (e2, w2)" by (cases "run rt w1 as")
  from Cons.prems(3) s r have eq: "evs = e1 @ e2" "w' = w2" by simp_all
  have f1: "filtered rt w1" "\<forall>e \<in> set e1. matches rt w (e_path e)"
    using step_filtered [OF Cons.prems(1) Cons.prems(2) s] by simp_all
  have c1: "patterns w1 = patterns w" "ignore_patterns w1 = ignore_patterns w"
    using step_config [OF s] by simp_all
  have m: "matches rt w1 = matches rt w" using c1 by (rule matches_cong)
  have ih: "filtered rt w2 \<and> (\<forall>e \<in> set e2. matches rt w1 (e_path e))
     \<and> patterns w2 = patterns w1 \<and> ignore_patterns w2 = ignore_patterns w1"
    using Cons.IH [OF Cons.prems(1) f1(1) r] .
  show ?case
    unfolding eq using ih f1(2) c1 by (simp add: m ball_Un)
qed

lemma init_filtered: "filtered rt (init p r pats ig iv uh)"
  by (simp add: filtered_def init_def keys_Nil)

text \<open>
  C9. The filter admits a path if and only if no exclude pattern matches it and some
  include pattern does, an exclude pattern winning over any include pattern. So every
  path of a scan passes the filter, and along any sequence of operations on a watcher,
  from its construction on, every path of the stored snapshot set and of every event
  produced passes the filter.
\<close>

theorem filter_policy:
  fixes w :: "'s FileWatcher" and as :: "'s action list"
  assumes "iteration (iter_set rt)"
  shows "(matches rt w p \<longleftrightarrow>
            (\<forall>pat \<in> set (ignore_patterns w). \<not> path_match rt p pat)
            \<and> (\<exists>pat \<in> set (patterns w). path_match rt p pat))
       \<and> (\<forall>q \<in> keys (scan rt w fs). matches rt w q)
       \<and> (\<forall>q \<in> keys (snapshots (snd (run rt (init d r pats ig iv uh) as))).
             matches rt (init d r pats ig iv uh :: 's FileWatcher) q)
       \<and> (\<forall>e \<in> set (fst (run rt (init d r pats ig iv uh) as)).
             matches rt (init d r pats ig iv uh :: 's FileWatcher) (e_path e))"
proof -
  let ?w0 = "init d r pats ig iv uh :: 's FileWatcher"
  obtain evs w' where r: "run rt ?w0 as = (evs, w')" by (cases "run rt ?w0 as")
  note rf = run_filtered [OF assms init_filtered r]
  from rf have 1: "filtered rt w'" and 2: "\<forall>e \<in> set evs. matches rt ?w0 (e_path e)"
    by blast+
  from rf have "patterns w' = patterns ?w0" "ignore_patterns w' = ignore_patterns ?w0"
    by blast+
  then have 3: "matches rt w' = matches rt ?w0" by (rule matches_cong)
  have a: "\<forall>q \<in> keys (snapshots (snd (run rt ?w0 as))). matches rt ?w0 q"
    using 1 3 by (simp add: r filtered_def)
  have b: "\<forall>e \<in> set (fst (run rt ?w0 as)). matches rt ?w0 (e_path e)"
    using 2 by (simp add: r)
  have c: "\<forall>q \<in> keys (scan rt w fs). matches rt w q"
    using scan_keys_match by blast
  note m = matches_iff [of rt w p]
  show ?thesis
    apply (rule conjI [OF m])
    apply (rule conjI [OF c])
    apply (rule conjI [OF a b])
    done
qed

text \<open>
  C9 with the include pattern \<^verbatim>\<open>*.txt\<close>: a directory holds \<open>a.txt\<close> and \<open>b.log\<close>,
  then \<open>c.txt\<close> as well, then nothing. \<open>b.log\<close> is in no scan, no snapshot set and no
  event.
\<close>

theorem filter_policy_witness:
  "iteration (iter_set sample_rt)
   \<and> map fst (scan sample_rt txt_watcher two_files) = [''d/a.txt'']
   \<and> \<not> matches sample_rt txt_watcher ''d/b.log''
   \<and> fst (run sample_rt txt_watcher [PollOnce two_files, PollOnce three_files, PollOnce empty_dir])
       = [mk_event CREATED ''d/c.txt'', mk_event DELETED ''d/a.txt'', mk_event DELETED ''d/c.txt'']
   \<and> ''d/b.log'' \<notin> e_path ` set (fst (run sample_rt txt_watcher
         [PollOnce two_files, PollOnce three_files, PollOnce empty_dir]))
   \<and> ''d/b.log'' \<notin> keys (snapshots (snd (run sample_rt txt_watcher
         [PollOnce two_files, PollOnce three_files])))"
proof -
  have n: "\<not> matches sample_rt txt_watcher ''d/b.log''" by code_simp
  have s: "map fst (scan sample_rt txt_watcher two_files) = [''d/a.txt'']" by code_simp
  have e: "fst (run sample_rt txt_watcher
              [PollOnce two_files, PollOnce three_files, PollOnce empty_dir])
       = [mk_event CREATED ''d/c.txt'', mk_event DELETED ''d/a.txt'', mk_event DELETED ''d/c.txt'']"
    by code_simp
  note fp3 = filter_policy [OF iteration_sample,
      where w = txt_watcher and p = "''d/b.log''" and fs = two_files and d = "''d''"
        and r = True and pats = "Some [''*.txt'']" and ig = None and iv = 1 and uh = False
        and as = "[PollOnce two_files, PollOnce three_files, PollOnce empty_dir]",
      folded txt_watcher_def]
  note fp2 = filter_policy [OF iteration_sample,
      where w = txt_watcher and p = "''d/b.log''" and fs = two_files and d = "''d''"
        and r = True and pats = "Some [''*.txt'']" and ig = None and iv = 1 and uh = False
        and as = "[PollOnce two_files, PollOnce three_files]",
      folded txt_watcher_def]
  have a: "''d/b.log'' \<notin> e_path ` set (fst (run sample_rt txt_watcher
         [PollOnce two_files, PollOnce three_files, PollOnce empty_dir]))"
  proof
    assume "''d/b.log'' \<in> e_path ` set (fst (run sample_rt txt_watcher
         [PollOnce two_files, PollOnce three_files, PollOnce empty_dir]))"
    then obtain ev where ev: "ev \<in> set (fst (run sample_rt txt_watcher
         [PollOnce two_files, PollOnce three_files, PollOnce empty_dir]))"
      and p: "''d/b.log'' = e_path ev"
      by (rule imageE)
    from bspec [OF fp3 [THEN conjunct2, THEN conjunct2, THEN conjunct2] ev]
    have "matches sample_rt txt_watcher (e_path ev)" .
    with p n show False by simp
  qed
  have b: "''d/b.log'' \<notin> keys (snapshots (snd (run sample_rt txt_watcher
         [PollOnce two_files, PollOnce three_files])))"
  proof
    assume "''d/b.log'' \<in> keys (snapshots (snd (run sample_rt txt_watcher
         [PollOnce two_files, PollOnce three_files])))"
    from bspec [OF fp2 [THEN conjunct2, THEN conjunct2, THEN conjunct1] this]
    have "matches sample_rt txt_watcher ''d/b.log''" .
    with n show False by simp
  qed
  from iteration_sample s n e a b show ?thesis by (intro conjI)
qed

section \<open>Construction\<close>

text \<open>
  C10. An explicitly empty include list is replaced by the match-everything pattern, so
  the watcher built from it is the watcher built from no include list at all; an
  explicitly empty exclude list is likewise the same as none.
\<close>

theorem init_empty_lists_as_default:
  "(init d r (Some []) ig iv uh :: 's FileWatcher) = init d r None ig iv uh
   \<and> patterns (init d r (Some []) ig iv uh :: 's FileWatcher) = [''*'']
   \<and> (init d r pats (Some []) iv uh :: 's FileWatcher) = init d r pats None iv uh
   \<and> ignore_patterns (init d r pats (Some []) iv uh :: 's FileWatcher) = []"
  by (simp add: init_def or_default_def)

section \<open>Starting and stopping\<close>

text \<open>
  C3, as the specification states it, fails on the code. A watcher that was started and
  stopped is started again: it is running, and a second thread (number 1, after
  number 0) has been created for \<^verbatim>\<open>_poll\<close>.
\<close>

theorem start_after_stop_counterexample:
  "\<not> running (stop (start (init ''d'' True None None 1 False :: unit FileWatcher)))
   \<and> thread (stop (start (init ''d'' True None None 1 False :: unit FileWatcher))) = Some 0
   \<and> running (start (stop (start (init ''d'' True None None 1 False :: unit FileWatcher))))
   \<and> thread (start (stop (start (init ''d'' True None None 1 False :: unit FileWatcher))))
       = Some 1"
  by (simp add: start_def stop_def init_def)

text \<open>
  C3, amended. \<^verbatim>\<open>start\<close> on a stopped watcher sets it running again and creates a new
  thread for \<^verbatim>\<open>_poll\<close>, which takes a new baseline and polls; \<^verbatim>\<open>start\<close> changes
  nothing only on a watcher that is running.
\<close>

theorem start_after_stop_restarts:
  "running (start (stop w))
   \<and> thread (start (stop w)) = Some (spawned w)
   \<and> spawned (start (stop w)) = Suc (spawned w)
   \<and> start (start (stop w)) = start (stop w)"
  by (simp add: start_def stop_def)

section \<open>Dispatch to the observers\<close>

lemma absorbed_cases:
  "absorbed r \<Longrightarrow> r = Returned \<or> (\<exists>msg. r = Raised (Exception (Some msg)))"
  by (cases r rule: absorbed.cases) simp_all

text \<open>
  With handlers whose outcomes \<^verbatim>\<open>_emit\<close> absorbs, its loop runs to the end: it
  returns normally, and the state the handlers act on is the one obtained by calling
  every handler of the list, in list order.
\<close>

lemma emit_loop_all:
  "\<forall>h \<in> set hs. catchable h \<Longrightarrow>
     fst (emit_loop hs ev s lg) = None
     \<and> fst (snd (emit_loop hs ev s lg)) = foldl (\<lambda>s h. snd (h ev s)) s hs"
proof (induction hs arbitrary: s lg)
  case Nil
  then show ?case by simp
next
  case (Cons h hs)
  obtain r s' where hs': "h ev s = (r, s')" by (cases "h ev s")
  from Cons.prems have c: "catchable h" and rest: "\<forall>h \<in> set hs. catchable h" by simp_all
  from c have "absorbed (fst (h ev s))" unfolding catchable_def by blast
  with hs' have "absorbed r" by simp
  then consider (ret) "r = Returned" | (exn) msg where "r = Raised (Exception (Some msg))"
    using absorbed_cases by blast
  then show ?case
  proof cases
    case ret
    with hs' Cons.IH [OF rest, of s' lg] show ?thesis by simp
  next
    case exn
    with hs' Cons.IH [OF rest, of s' "lg @ [''Handler error: '' @ msg]"]
    show ?thesis by simp
  qed
qed

lemma emit_deliver:
  assumes "all_catchable w"
  shows "fst (emit w ev s lg) = None \<and> fst (snd (emit w ev s lg)) = deliver w s ev"
proof -
  have "\<forall>h \<in> set (handlers w (e_type ev)). catchable h"
    using assms by (simp add: all_catchable_def)
  from emit_loop_all [OF this, of ev s lg] show ?thesis
    by (simp add: emit_def deliver_def)
qed

text \<open>Every event of a list is delivered, in the order of the list.\<close>

lemma emit_all_deliver:
  "all_catchable w \<Longrightarrow>
     fst (emit_all w evs s lg) = None
     \<and> fst (snd (emit_all w evs s lg)) = foldl (deliver w) s evs"
proof (induction evs arbitrary: s lg)
  case Nil
  then show ?case by simp
next
  case (Cons ev evs)
  obtain r s' lg' where e: "emit w ev s lg = (r, s', lg')" by (cases "emit w ev s lg")
  from emit_deliver [OF Cons.prems, of ev s lg] e
  have r: "r = None" and s': "s' = deliver w s ev" by simp_all
  from Cons.IH [OF Cons.prems, of s' lg'] e r s' show ?case by simp
qed

lemma deliver_cong: "handlers w' = handlers w \<Longrightarrow> deliver w' = deliver w"
  by (simp add: deliver_def fun_eq_iff)

text \<open>
  The loop of \<^verbatim>\<open>_poll\<close> then completes every cycle it is given. The events of its
  cycles are those of the successive calls of \<^verbatim>\<open>_check\<close>, and each of them is
  delivered.
\<close>

lemma poll_cycles_complete:
  "all_catchable w \<Longrightarrow>
     fst (poll_cycles rt w fss out s lg) = None
     \<and> (\<exists>cyc. fst (snd (poll_cycles rt w fss out s lg)) = out @ cyc
            \<and> length cyc = length fss
            \<and> concat cyc = fst (run rt w (map Cycle fss)))
     \<and> fst (snd (snd (snd (poll_cycles rt w fss out s lg)))) =
         foldl (deliver w) s (fst (run rt w (map Cycle fss)))"
proof (induction fss arbitrary: w out s lg)
  case Nil
  then show ?case by simp
next
  case (Cons fs fss)
  obtain events w' where c: "check rt w fs = (events, w')" by (cases "check rt w fs")
  then have hw: "handlers w' = handlers w" by (auto simp: check_def Let_def)
  with Cons.prems have p: "all_catchable w'" by (simp add: all_catchable_def)
  have dw: "deliver w' = deliver w" using hw by (rule deliver_cong)
  obtain r s' lg' where e: "emit_all w' events s lg = (r, s', lg')"
    by (cases "emit_all w' events s lg")
  from emit_all_deliver [OF p, of events s lg] e
  have r: "r = None" and s': "s' = foldl (deliver w) s events" by (simp_all add: dw)
  obtain evs' w'' where rn: "run rt w' (map Cycle fss) = (evs', w'')"
    by (cases "run rt w' (map Cycle fss)")
  have pc: "poll_cycles rt w (fs # fss) out s lg = poll_cycles rt w' fss (out @ [events]) s' lg'"
    using c e r by simp
  have rw: "fst (run rt w (map Cycle (fs # fss))) = events @ evs'"
    using c rn by simp
  note ih = Cons.IH [OF p, of "out @ [events]" s' lg', unfolded rn fst_conv dw]
  from ih obtain cyc where cyc: "fst (snd (poll_cycles rt w' fss (out @ [events]) s' lg')) =
      (out @ [events]) @ cyc" "length cyc = length fss" "concat cyc = evs'"
    by blast
  have 1: "fst (poll_cycles rt w (fs # fss) out s lg) = None"
    unfolding pc using ih by blast
  have 2: "\<exists>cyc. fst (snd (poll_cycles rt w (fs # fss) out s lg)) = out @ cyc
            \<and> length cyc = length (fs # fss)
            \<and> concat cyc = fst (run rt w (map Cycle (fs # fss)))"
    unfolding pc rw using cyc by (intro exI [of _ "events # cyc"]) simp
  have 3: "fst (snd (snd (snd (poll_cycles rt w (fs # fss) out s lg)))) =
         foldl (deliver w) s (fst (run rt w (map Cycle (fs # fss))))"
    unfolding pc rw using ih by (simp add: s')
  from 1 2 3 show ?case by blast
qed

text \<open>
  C8, as the specification states it, fails on the code. The first of two callbacks
  registered for \<^verbatim>\<open>created\<close> leaves through \<^verbatim>\<open>sys.exit\<close>, which raises
  \<^verbatim>\<open>SystemExit\<close>, an exception outside \<^verbatim>\<open>Exception\<close>: the second callback is not
  invoked, the exception leaves \<^verbatim>\<open>_emit\<close>, and the polling loop ends in its first
  cycle.
\<close>

theorem emit_uncaught_counterexample:
  "handlers exiting_watcher CREATED = [exiting_handler, recording_handler]
   \<and> fst (emit exiting_watcher (mk_event CREATED ''d/x.txt'') [] []) =
       Some (Uncaught (BaseException ''SystemExit''))
   \<and> fst (snd (emit exiting_watcher (mk_event CREATED ''d/x.txt'') [] [])) = [''exit'']
   \<and> fst (poll sample_rt exiting_watcher empty_dir [one_file, empty_dir] [] []) =
       Some (Uncaught (BaseException ''SystemExit''))
   \<and> fst (snd (poll sample_rt exiting_watcher empty_dir [one_file, empty_dir] [] [])) =
       [[mk_event CREATED ''d/x.txt'']]"
proof (intro conjI)
  show "handlers exiting_watcher CREATED = [exiting_handler, recording_handler]"
    by (simp add: exiting_watcher_def on_def init_def)
  show "fst (emit exiting_watcher (mk_event CREATED ''d/x.txt'') [] []) =
       Some (Uncaught (BaseException ''SystemExit''))"
    by code_simp
  show "fst (snd (emit exiting_watcher (mk_event CREATED ''d/x.txt'') [] [])) = [''exit'']"
    by code_simp
  show "fst (poll sample_rt exiting_watcher empty_dir [one_file, empty_dir] [] []) =
       Some (Uncaught (BaseException ''SystemExit''))"
    by code_simp
  show "fst (snd (poll sample_rt exiting_watcher empty_dir [one_file, empty_dir] [] [])) =
       [[mk_event CREATED ''d/x.txt'']]"
    by code_simp
qed

text \<open>
  C8, amended. A callback registered with \<^verbatim>\<open>on\<close> is appended to the list of its
  event type, one registered with \<^verbatim>\<open>on_any\<close> to the list of every type. When every
  callback either returns or raises an instance of \<^verbatim>\<open>Exception\<close> whose text can be
  computed for the log, then for every event \<^verbatim>\<open>_emit\<close> invokes every callback of the
  event's type in registration order, whether or not an earlier one raised, and
  returns normally; every event of a list is dispatched so, in order; and the polling
  loop runs all its cycles, producing the events of the successive calls of
  \<^verbatim>\<open>_check\<close> and dispatching each of them.
\<close>

theorem emit_isolates_handlers:
  assumes "all_catchable w"
  shows "handlers (on t h w) t' = (if t' = t then handlers w t @ [h] else handlers w t')
       \<and> handlers (on_any h w) t' = handlers w t' @ [h]
       \<and> fst (emit w ev s lg) = None
       \<and> fst (snd (emit w ev s lg)) = foldl (\<lambda>s h. snd (h ev s)) s (handlers w (e_type ev))
       \<and> fst (emit_all w evs s lg) = None
       \<and> fst (snd (emit_all w evs s lg)) = foldl (deliver w) s evs
       \<and> fst (poll_cycles rt w fss [] s lg) = None
       \<and> length (fst (snd (poll_cycles rt w fss [] s lg))) = length fss
       \<and> concat (fst (snd (poll_cycles rt w fss [] s lg))) = fst (run rt w (map Cycle fss))
       \<and> fst (snd (snd (snd (poll_cycles rt w fss [] s lg)))) =
           foldl (deliver w) s (fst (run rt w (map Cycle fss)))"
proof -
  have 1: "handlers (on t h w) t' = (if t' = t then handlers w t @ [h] else handlers w t')"
    by (simp add: on_def)
  have 2: "handlers (on_any h w) t' = handlers w t' @ [h]"
    by (simp add: on_any_def)
  note e = emit_deliver [OF assms, of ev s lg, unfolded deliver_def]
  note a = emit_all_deliver [OF assms, of evs s lg]
  note p = poll_cycles_complete [OF assms, of rt fss "[]" s lg]
  from p obtain cyc where cyc: "fst (snd (poll_cycles rt w fss [] s lg)) = cyc"
      "length cyc = length fss" "concat cyc = fst (run rt w (map Cycle fss))"
    by auto
  have 3: "length (fst (snd (poll_cycles rt w fss [] s lg))) = length fss"
    "concat (fst (snd (poll_cycles rt w fss [] s lg))) = fst (run rt w (map Cycle fss))"
    using cyc by simp_all
  from p have 4: "fst (poll_cycles rt w fss [] s lg) = None"
    "fst (snd (snd (snd (poll_cycles rt w fss [] s lg)))) =
           foldl (deliver w) s (fst (run rt w (map Cycle fss)))"
    by blast+
  from 1 2 e a 3 4 show ?thesis by (intro conjI) blast+
qed

lemma sample_watcher_catchable: "all_catchable sample_watcher"
  by (simp add: all_catchable_def sample_watcher_def on_def init_def catchable_def
      failing_handler_def recording_handler_def)

text \<open>
  C8, amended, on a watcher with two callbacks for \<^verbatim>\<open>created\<close>, the first of which
  raises an \<^verbatim>\<open>Exception\<close>: both record their call, in registration order, the failure
  is logged, and the polling loop delivers the event it produces and goes on.
\<close>

theorem emit_isolates_handlers_witness:
  "all_catchable sample_watcher
   \<and> handlers sample_watcher CREATED = [failing_handler, recording_handler]
   \<and> handlers (on_any recording_handler sample_watcher) DELETED = [recording_handler]
   \<and> fst (failing_handler (mk_event CREATED ''d/x.txt'') []) = Raised (Exception (Some ''boom''))
   \<and> fst (emit sample_watcher (mk_event CREATED ''d/x.txt'') [] []) = None
   \<and> fst (snd (emit sample_watcher (mk_event CREATED ''d/x.txt'') [] [])) = [''first'', ''second'']
   \<and> snd (snd (emit sample_watcher (mk_event CREATED ''d/x.txt'') [] [])) =
       [''Handler error: boom'']
   \<and> fst (poll_cycles sample_rt sample_watcher [one_file, empty_dir] [] [] []) = None
   \<and> fst (snd (poll_cycles sample_rt sample_watcher [one_file, empty_dir] [] [] [])) =
       [[mk_event CREATED ''d/x.txt''], [mk_event DELETED ''d/x.txt'']]
   \<and> fst (snd (snd (snd (poll_cycles sample_rt sample_watcher [one_file, empty_dir] [] [] []))))
       = [''first'', ''second'']"
proof -
  note t = emit_isolates_handlers [OF sample_watcher_catchable,
      where t = CREATED and h = recording_handler and t' = DELETED
        and ev = "mk_event CREATED ''d/x.txt''" and s = "[]" and lg = "[]" and evs = "[]"
        and rt = sample_rt and fss = "[one_file, empty_dir]"]
  have 1: "handlers sample_watcher CREATED = [failing_handler, recording_handler]"
    by (simp add: sample_watcher_def on_def init_def)
  have 2: "handlers (on_any recording_handler sample_watcher) DELETED = [recording_handler]"
    using t by (simp add: sample_watcher_def on_def init_def)
  have 3: "fst (failing_handler (mk_event CREATED ''d/x.txt'') []) =
      Raised (Exception (Some ''boom''))"
    by (simp add: failing_handler_def)
  have 4: "fst (emit sample_watcher (mk_event CREATED ''d/x.txt'') [] []) = None"
    using t by blast
  have 5: "fst (snd (emit sample_watcher (mk_event CREATED ''d/x.txt'') [] [])) =
      [''first'', ''second'']"
    by code_simp
  have 6: "snd (snd (emit sample_watcher (mk_event CREATED ''d/x.txt'') [] [])) =
       [''Handler error: boom'']"
    by code_simp
  have 7: "fst (poll_cycles sample_rt sample_watcher [one_file, empty_dir] [] [] []) = None"
    using t by blast
  have 8: "fst (snd (poll_cycles sample_rt sample_watcher [one_file, empty_dir] [] [] [])) =
       [[mk_event CREATED ''d/x.txt''], [mk_event DELETED ''d/x.txt'']]"
    by code_simp
  have 9: "fst (snd (snd (snd (poll_cycles sample_rt sample_watcher [one_file, empty_dir]
      [] [] [])))) = [''first'', ''second'']"
    by code_simp
  from sample_watcher_catchable 1 2 3 4 5 6 7 8 9 show ?thesis by (intro conjI)
qed

section \<open>Polling by hand\<close>

text \<open>
  \<^verbatim>\<open>poll_once\<close> on a watcher with no stored snapshot returns no event and stores the
  scan; on a watcher with a stored snapshot it is \<^verbatim>\<open>_check\<close>.
\<close>

lemma poll_once_fresh:
  "snapshots w = [] \<Longrightarrow> poll_once rt w fs = ([], w\<lparr>snapshots := scan rt w fs\<rparr>)"
  by (simp add: poll_once_def)

lemma poll_once_later:
  "snapshots w \<noteq> [] \<Longrightarrow> poll_once rt w fs = check rt w fs"
  by (simp add: poll_once_def)

text \<open>
  When the first scan finds nothing, the stored dictionary stays empty, and the next
  call takes the baseline branch again: it returns no event whatever the file system
  holds by then.
\<close>

lemma poll_once_empty_baseline_again:
  assumes "snapshots w = []" "scan rt w fs0 = []"
  shows "fst (poll_once rt (snd (poll_once rt w fs0)) fs1) = []"
  using assms by (simp add: poll_once_def)

text \<open>
  C1 fails on the code for a watched directory that is empty at the first call. The
  first \<^verbatim>\<open>poll_once\<close> returns no event and stores the empty scan; a file \<open>x.txt\<close> is
  created; the second \<^verbatim>\<open>poll_once\<close> scans it and still returns no event. The thread
  body \<^verbatim>\<open>_poll\<close>, given the same two states of the directory, reports the creation.
\<close>

theorem poll_once_empty_baseline_misses_creation:
  "fst (poll_once sample_rt default_watcher empty_dir) = []
   \<and> snapshots (snd (poll_once sample_rt default_watcher empty_dir)) = []
   \<and> map fst (scan sample_rt default_watcher one_file) = [''d/x.txt'']
   \<and> fst (poll_once sample_rt (snd (poll_once sample_rt default_watcher empty_dir)) one_file) = []
   \<and> fst (snd (poll sample_rt default_watcher empty_dir [one_file] () [])) =
       [[mk_event CREATED ''d/x.txt'']]"
  by code_simp

end
